theory Spec2Isabelle
  imports Main "HOL-Library.Monad_Syntax"
begin

section \<open>Constants (constants.py)\<close>

definition WIDTH :: int where
  "WIDTH = 13"

definition HEIGHT :: int where
  "HEIGHT = 21"

definition POINTS_PER_FULL_ROW :: int where
  "POINTS_PER_FULL_ROW = 10"

text \<open>
  The four key codes come from the curses library (octal 0402 to 0405). The program only
  compares them with each other, so only their being distinct matters.
\<close>

definition KEY_DOWN :: int where
  "KEY_DOWN = 258"

definition KEY_UP :: int where
  "KEY_UP = 259"

definition KEY_LEFT :: int where
  "KEY_LEFT = 260"

definition KEY_RIGHT :: int where
  "KEY_RIGHT = 261"

definition ARROW_KEYS :: "int list" where
  "ARROW_KEYS = [KEY_UP, KEY_DOWN, KEY_LEFT, KEY_RIGHT]"

section \<open>Data model\<close>

text \<open>
  Modelled from the spec: the module \<open>custom_types\<close> (Vector2, BoundingBox, BlockMask,
  TetrisBlockShape, TetrisBlock, GameContext) is imported by both source files but is not
  among them. The types below follow section 3 of the specification and the way
  \<open>main.py\<close> and \<open>constants.py\<close> construct and read them (constructor argument order,
  attribute names). The fields of Vector2 are called \<open>x\<close> and \<open>y\<close> in the program; they
  are \<open>vec_x\<close> and \<open>vec_y\<close> here.
\<close>

datatype TetrisBlockShape = Shape_I | Shape_J | Shape_L | Shape_O | Shape_S | Shape_T | Shape_Z

text \<open>
  A BlockMask is a tuple of 16 booleans. It is a list here; a mask of the program always
  has length 16, which the theorems state as \<open>length m = 16\<close>.
\<close>

type_synonym BlockMask = "bool list"

record Vector2 =
  vec_x :: int
  vec_y :: int

record BoundingBox =
  min_x :: int
  max_x :: int
  min_y :: int
  max_y :: int

record TetrisBlock =
  position :: Vector2
  block :: BlockMask
  color :: int

record GameContext =
  points :: int
  paused :: bool
  game_started :: bool
  shapes :: "TetrisBlock list"
  next_shape :: TetrisBlock
  highscore :: int
  level :: int
  cleared_rows :: int

fun BLOCK_MASKS :: "TetrisBlockShape \<Rightarrow> BlockMask" where
  "BLOCK_MASKS Shape_I =
     [False, False, False, False,
      True, True, True, True,
      False, False, False, False,
      False, False, False, False]"
| "BLOCK_MASKS Shape_J =
     [False, False, False, False,
      False, True, False, False,
      False, True, True, True,
      False, False, False, False]"
| "BLOCK_MASKS Shape_L =
     [False, False, False, False,
      False, False, True, False,
      True, True, True, False,
      False, False, False, False]"
| "BLOCK_MASKS Shape_O =
     [False, False, False, False,
      False, True, True, False,
      False, True, True, False,
      False, False, False, False]"
| "BLOCK_MASKS Shape_S =
     [False, False, False, False,
      False, True, True, False,
      True, True, False, False,
      False, False, False, False]"
| "BLOCK_MASKS Shape_T =
     [False, False, False, False,
      False, True, False, False,
      True, True, True, False,
      False, False, False, False]"
| "BLOCK_MASKS Shape_Z =
     [False, False, False, False,
      True, True, False, False,
      False, True, True, False,
      False, False, False, False]"

fun BLOCK_COLORS :: "TetrisBlockShape \<Rightarrow> int" where
  "BLOCK_COLORS Shape_I = 1"
| "BLOCK_COLORS Shape_J = 2"
| "BLOCK_COLORS Shape_L = 3"
| "BLOCK_COLORS Shape_O = 4"
| "BLOCK_COLORS Shape_S = 5"
| "BLOCK_COLORS Shape_T = 6"
| "BLOCK_COLORS Shape_Z = 7"

section \<open>Mask indexing and rotation (main.py)\<close>

definition index_bm :: "int \<Rightarrow> int \<Rightarrow> int" where
  "index_bm x y = 4 * y + (3 - x)"

text \<open>
  Every read \<open>mask[index_bm(x, y)]\<close> of the program has \<open>0 \<le> x < 4\<close> and \<open>0 \<le> y < 4\<close>
  (the loops run over \<open>range(4)\<close>, over the intersection of two bounding boxes, or over a
  row that cuts the shape), so the index lies in \<open>0 .. 15\<close> and the read of a 16-cell mask
  never raises and never wraps around. The reads are written \<open>mask ! nat (index_bm x y)\<close>.
\<close>

definition range4 :: "int list" where
  "range4 = [0, 1, 2, 3]"

definition rotate_shape :: "BlockMask \<Rightarrow> BlockMask" where
  "rotate_shape msk =
     fold (\<lambda>x result.
        fold (\<lambda>y result. result[nat (index_bm y (3 - x)) := msk ! nat (index_bm x y)])
          range4 result)
       range4 (replicate 16 False)"

section \<open>Collision check (main.py)\<close>

text \<open>Python's \<open>range(a, b)\<close> over integers.\<close>

definition py_range :: "int \<Rightarrow> int \<Rightarrow> int list" where
  "py_range a b = [a..b - 1]"

definition get_shape_bounds :: "Vector2 \<Rightarrow> BoundingBox" where
  "get_shape_bounds pos =
     \<lparr>min_x = vec_x pos, max_x = vec_x pos + 4, min_y = vec_y pos, max_y = vec_y pos + 4\<rparr>"

definition get_intersection_area :: "BoundingBox \<Rightarrow> BoundingBox \<Rightarrow> BoundingBox" where
  "get_intersection_area box_a box_b =
     \<lparr>min_x = max (min_x box_a) (min_x box_b),
      max_x = min (max_x box_a) (max_x box_b),
      min_y = max (min_y box_a) (min_y box_b),
      max_y = min (max_y box_a) (max_y box_b)\<rparr>"

text \<open>
  The two nested loops return True at the first coordinate where both shapes have a cell
  and False when there is none: an existential over the two ranges.
\<close>

definition check_collision :: "BoundingBox \<Rightarrow> TetrisBlock \<Rightarrow> TetrisBlock \<Rightarrow> bool" where
  "check_collision intersection shape_a shape_b =
     list_ex (\<lambda>x.
        list_ex (\<lambda>y.
           block shape_a ! nat (index_bm (x - vec_x (position shape_a)) (y - vec_y (position shape_a)))
           \<and> block shape_b ! nat (index_bm (x - vec_x (position shape_b)) (y - vec_y (position shape_b))))
          (py_range (min_y intersection) (max_y intersection)))
       (py_range (min_x intersection) (max_x intersection))"

text \<open>
  \<open>shapes[-1]\<close> raises IndexError on an empty list: the result is \<open>None\<close> then. The loop
  over \<open>range(len(shapes) - 1)\<close> visits every shape but the last.
\<close>

definition intersects_any :: "TetrisBlock list \<Rightarrow> bool option" where
  "intersects_any shs =
     (if shs = [] then None
      else
        let current_shape = last shs;
            current_bb = get_shape_bounds (position current_shape)
        in Some (list_ex (\<lambda>other_shape.
             let other_bb = get_shape_bounds (position other_shape)
             in \<not> (min_x current_bb > max_x other_bb \<or> max_x current_bb < min_x other_bb)
                \<and> \<not> (min_y current_bb > max_y other_bb \<or> max_y current_bb < min_y other_bb)
                \<and> check_collision (get_intersection_area current_bb other_bb)
                     current_shape other_shape)
            (butlast shs)))"

section \<open>Handle full rows (main.py)\<close>

text \<open>
  \<open>cut_shapes\<close> and \<open>above_shapes\<close> hold references to objects of the list \<open>shapes\<close>, and
  the program mutates the shapes through them. The list \<open>shapes\<close> is the store here and a
  reference is a position in it. The shapes of the program are distinct objects (each is
  built by \<open>get_new_shape\<close> and appended once), so a position names one object.
\<close>

definition categorize_and_mark_shape ::
  "TetrisBlock list \<Rightarrow> nat \<Rightarrow> nat list \<times> nat list \<times> bool list \<Rightarrow> int
     \<Rightarrow> nat list \<times> nat list \<times> bool list" where
  "categorize_and_mark_shape shs i st row =
     (case st of (cut_shapes, above_shapes, row_fill_mask) \<Rightarrow>
        let shape = shs ! i in
        if vec_y (position shape) > row then (cut_shapes, above_shapes @ [i], row_fill_mask)
        else if vec_y (position shape) + 4 \<le> row then (cut_shapes, above_shapes, row_fill_mask)
        else
          (cut_shapes @ [i], above_shapes,
           fold (\<lambda>x fill.
              let col_idx = vec_x (position shape) + x in
              if \<not> (0 \<le> col_idx \<and> col_idx < WIDTH) then fill
              else if block shape ! nat (index_bm x (row - vec_y (position shape)))
                then fill[nat col_idx := True]
                else fill)
             range4 row_fill_mask))"

definition move_shapes_down :: "nat list \<Rightarrow> TetrisBlock list \<Rightarrow> TetrisBlock list" where
  "move_shapes_down refs shs =
     fold (\<lambda>i shs.
        shs[i := (shs ! i)\<lparr>position :=
                   (position (shs ! i))\<lparr>vec_y := vec_y (position (shs ! i)) - 1\<rparr>\<rparr>])
       refs shs"

text \<open>The mask that \<open>remove_row_from_shapes\<close> builds for one shape.\<close>

definition new_block_of :: "BlockMask \<Rightarrow> int \<Rightarrow> BlockMask" where
  "new_block_of blk row_idx =
     fold (\<lambda>x new_block.
        fold (\<lambda>y new_block.
           if y < row_idx then new_block[nat (index_bm x y) := blk ! nat (index_bm x y)]
           else if y + 1 < 4 then new_block[nat (index_bm x y) := blk ! nat (index_bm x (y + 1))]
           else new_block[nat (index_bm x y) := False])
          range4 new_block)
       range4 (replicate 16 False)"

definition remove_row_from_shapes :: "nat list \<Rightarrow> int \<Rightarrow> TetrisBlock list \<Rightarrow> TetrisBlock list" where
  "remove_row_from_shapes refs row shs =
     fold (\<lambda>i shs.
        let shape = shs ! i;
            row_idx = row - vec_y (position shape)
        in shs[i := shape\<lparr>block := new_block_of (block shape) row_idx\<rparr>])
       refs shs"

text \<open>The \<open>for shape in shapes\<close> loop of \<open>clear_full_rows\<close> for one row.\<close>

definition scan_row :: "TetrisBlock list \<Rightarrow> int \<Rightarrow> nat list \<times> nat list \<times> bool list" where
  "scan_row shs row =
     fold (\<lambda>i st. categorize_and_mark_shape shs i st row)
       [0..<length shs] ([], [], replicate (nat WIDTH) False)"

text \<open>
  The number of occupied cells among the 16 slots of a mask, and over a list of shapes:
  the quantity that decreases whenever a row is cleared.
\<close>

definition mask_cells :: "BlockMask \<Rightarrow> nat" where
  "mask_cells blk = length (filter (\<lambda>i. blk ! i) [0..<16])"

definition total_cells :: "TetrisBlock list \<Rightarrow> nat" where
  "total_cells shs = sum_list (map (\<lambda>s. mask_cells (block s)) shs)"

section \<open>Points and level (main.py)\<close>

definition update_points :: "GameContext \<Rightarrow> int \<Rightarrow> GameContext" where
  "update_points ctx num_cleared_rows =
     (let factor =
        (if num_cleared_rows = 1 then 1
         else if num_cleared_rows = 2 then 3
         else if num_cleared_rows = 3 then 5
         else if num_cleared_rows = 4 then 8
         else 0)
      in ctx\<lparr>points := points ctx + factor * POINTS_PER_FULL_ROW * (level ctx + 1)\<rparr>)"

definition update_level :: "GameContext \<Rightarrow> int \<Rightarrow> GameContext" where
  "update_level ctx num_cleared_rows =
     (let ctx1 = ctx\<lparr>cleared_rows := cleared_rows ctx + num_cleared_rows\<rparr>
      in ctx1\<lparr>level := cleared_rows ctx1 div 10\<rparr>)"

section \<open>Stats persistence (main.py)\<close>

text \<open>
  \<open>load_stats\<close> and \<open>save_stats\<close> read and write the one file \<open>stats.json\<close> beside the
  program. The state of that file is \<open>None\<close> when it does not exist and \<open>Some text\<close> when
  it holds \<open>text\<close>. The stats dictionary maps names to integers. Python's \<open>json\<close> module is
  not part of the repository: \<open>json_dump\<close> (the text that \<open>json.dump\<close> writes) and
  \<open>json_load\<close> (the value that \<open>json.load\<close> returns, or the exception it raises) are
  parameters. \<open>OtherError\<close> stands for every exception that is neither of the two that
  \<open>load_stats\<close> catches.
\<close>

datatype exc = FileNotFoundError | JSONDecodeError | OtherError

type_synonym stats = "string \<rightharpoonup> int"

definition DEFAULT_STATS :: stats where
  "DEFAULT_STATS = [''highscore'' \<mapsto> 0]"

definition open_read :: "string option \<Rightarrow> exc + string" where
  "open_read file = (case file of None \<Rightarrow> Inl FileNotFoundError | Some text \<Rightarrow> Inr text)"

definition load_stats :: "(string \<Rightarrow> exc + stats) \<Rightarrow> string option \<Rightarrow> exc + stats" where
  "load_stats json_load file =
     (case (case open_read file of Inl e \<Rightarrow> Inl e | Inr text \<Rightarrow> json_load text) of
        Inl FileNotFoundError \<Rightarrow> Inr DEFAULT_STATS
      | Inl JSONDecodeError \<Rightarrow> Inr DEFAULT_STATS
      | Inl OtherError \<Rightarrow> Inl OtherError
      | Inr v \<Rightarrow> Inr v)"


section \<open>Row clearing: the scan of one row\<close>

text \<open>
  Notions for the proofs about \<open>clear_full_rows\<close>: the two tests of
  \<open>categorize_and_mark_shape\<close> as predicates, and its marking loop for one shape.
\<close>

definition is_above :: "TetrisBlock \<Rightarrow> int \<Rightarrow> bool" where
  "is_above s row = (vec_y (position s) > row)"

definition is_cut :: "TetrisBlock \<Rightarrow> int \<Rightarrow> bool" where
  "is_cut s row = (vec_y (position s) \<le> row \<and> row < vec_y (position s) + 4)"

definition mark_columns :: "TetrisBlock \<Rightarrow> int \<Rightarrow> bool list \<Rightarrow> bool list" where
  "mark_columns shape row row_fill_mask =
     fold (\<lambda>x fill.
              let col_idx = vec_x (position shape) + x in
              if \<not> (0 \<le> col_idx \<and> col_idx < WIDTH) then fill
              else if block shape ! nat (index_bm x (row - vec_y (position shape)))
                then fill[nat col_idx := True]
                else fill)
             range4 row_fill_mask"

lemma categorize_step:
  "categorize_and_mark_shape shs j (c, a, f) row =
     (if is_cut (shs ! j) row then c @ [j] else c,
      if is_above (shs ! j) row then a @ [j] else a,
      if is_cut (shs ! j) row then mark_columns (shs ! j) row f else f)"
  by (auto simp add: categorize_and_mark_shape_def Let_def is_cut_def is_above_def
        mark_columns_def)

lemma scan_fold:
  "fold (\<lambda>i st. categorize_and_mark_shape shs i st row) js (c, a, f) =
     (c @ filter (\<lambda>i. is_cut (shs ! i) row) js,
      a @ filter (\<lambda>i. is_above (shs ! i) row) js,
      fold (\<lambda>i f. if is_cut (shs ! i) row then mark_columns (shs ! i) row f else f) js f)"
proof (induction js arbitrary: c a f)
  case Nil
  show ?case by simp
next
  case (Cons j js)
  show ?case
    by (simp add: categorize_step Cons.IH)
qed

lemma length_mark_columns: "length (mark_columns s row f) = length f"
  by (simp add: mark_columns_def range4_def Let_def)


text \<open>One pass of the marking loop, for one local column \<open>x\<close>.\<close>

definition mark_one :: "int \<Rightarrow> (int \<Rightarrow> bool) \<Rightarrow> int \<Rightarrow> bool list \<Rightarrow> bool list" where
  "mark_one px P x fill =
     (let col_idx = px + x in
      if \<not> (0 \<le> col_idx \<and> col_idx < WIDTH) then fill
      else if P x then fill[nat col_idx := True] else fill)"

lemma length_mark_one: "length (mark_one px P x f) = length f"
  by (simp add: mark_one_def Let_def)

lemma nth_mark_one:
  assumes "length f = 13" "c < 13"
  shows "mark_one px P x f ! c = (f ! c \<or> (px + x = int c \<and> P x))"
proof -
  have "px + x = int c \<longleftrightarrow> (0 \<le> px + x \<and> nat (px + x) = c)" by auto
  then show ?thesis
    using assms by (auto simp add: mark_one_def Let_def WIDTH_def nth_list_update)
qed

lemma nth_mark_fold:
  assumes "length f = 13" "c < 13"
  shows "fold (mark_one px P) xs f ! c = (f ! c \<or> (\<exists>x\<in>set xs. px + x = int c \<and> P x))"
  using assms
proof (induction xs arbitrary: f)
  case Nil
  show ?case by simp
next
  case (Cons x xs)
  have "length (mark_one px P x f) = 13"
    using Cons.prems by (simp add: length_mark_one)
  then have "fold (mark_one px P) xs (mark_one px P x f) ! c =
      (mark_one px P x f ! c \<or> (\<exists>x\<in>set xs. px + x = int c \<and> P x))"
    using Cons.prems by (intro Cons.IH)
  then show ?case
    using Cons.prems by (auto simp add: nth_mark_one)
qed

lemma mark_columns_mark_one:
  "mark_columns s row f =
     fold (mark_one (vec_x (position s))
       (\<lambda>x. block s ! nat (index_bm x (row - vec_y (position s))))) range4 f"
  by (simp add: mark_columns_def mark_one_def [abs_def])

lemma nth_mark_columns:
  assumes "length f = 13" "c < 13"
  shows "mark_columns s row f ! c =
     (f ! c \<or> (\<exists>x\<in>set range4. vec_x (position s) + x = int c
          \<and> block s ! nat (index_bm x (row - vec_y (position s)))))"
  unfolding mark_columns_mark_one
  by (rule nth_mark_fold [OF assms])

lemma length_fill_fold:
  "length (fold (\<lambda>i f. if is_cut (shs ! i) row then mark_columns (shs ! i) row f else f) js f)
     = length f"
  by (induction js arbitrary: f) (simp_all add: length_mark_columns)

lemma nth_fill_fold:
  assumes "length f = 13" "c < 13"
  shows "fold (\<lambda>i f. if is_cut (shs ! i) row then mark_columns (shs ! i) row f else f) js f ! c =
     (f ! c \<or> (\<exists>i\<in>set js. is_cut (shs ! i) row \<and>
         (\<exists>x\<in>set range4. vec_x (position (shs ! i)) + x = int c
             \<and> block (shs ! i) ! nat (index_bm x (row - vec_y (position (shs ! i)))))))"
  using assms
proof (induction js arbitrary: f)
  case Nil
  show ?case by simp
next
  case (Cons j js)
  show ?case
    using Cons.prems
    by (simp add: Cons.IH length_mark_columns nth_mark_columns)
qed


lemma length_fold_update:
  "length (fold (\<lambda>i s. s[i := g (s ! i)]) js xs) = length xs"
  by (induction js arbitrary: xs) simp_all

lemma nth_fold_update:
  assumes "distinct js" "j < length xs"
  shows "fold (\<lambda>i s. s[i := g (s ! i)]) js xs ! j = (if j \<in> set js then g (xs ! j) else xs ! j)"
  using assms
proof (induction js arbitrary: xs)
  case Nil
  show ?case by simp
next
  case (Cons i js)
  have "fold (\<lambda>i s. s[i := g (s ! i)]) js (xs[i := g (xs ! i)]) ! j =
      (if j \<in> set js then g (xs[i := g (xs ! i)] ! j) else xs[i := g (xs ! i)] ! j)"
    using Cons.prems by (intro Cons.IH) simp_all
  then show ?case
    using Cons.prems by (cases "i = j") (auto simp add: nth_list_update)
qed

text \<open>What \<open>move_shapes_down\<close> and \<open>remove_row_from_shapes\<close> do to one shape.\<close>

definition move_down :: "TetrisBlock \<Rightarrow> TetrisBlock" where
  "move_down s = s\<lparr>position := (position s)\<lparr>vec_y := vec_y (position s) - 1\<rparr>\<rparr>"

definition remove_row :: "int \<Rightarrow> TetrisBlock \<Rightarrow> TetrisBlock" where
  "remove_row row s = s\<lparr>block := new_block_of (block s) (row - vec_y (position s))\<rparr>"

lemma move_shapes_down_fold:
  "move_shapes_down refs shs = fold (\<lambda>i s. s[i := move_down (s ! i)]) refs shs"
  by (simp add: move_shapes_down_def move_down_def [abs_def])

lemma remove_row_from_shapes_fold:
  "remove_row_from_shapes refs row shs = fold (\<lambda>i s. s[i := remove_row row (s ! i)]) refs shs"
  by (simp add: remove_row_from_shapes_def remove_row_def [abs_def] Let_def)

text \<open>One cleared row: what the loop body does to the store when the row is full.\<close>

definition clear_row :: "TetrisBlock list \<Rightarrow> int \<Rightarrow> TetrisBlock list" where
  "clear_row shs row =
     (case scan_row shs row of (cut_shapes, above_shapes, is_column_filled) \<Rightarrow>
        remove_row_from_shapes cut_shapes row (move_shapes_down above_shapes shs))"

lemma scan_row_eq:
  "scan_row shs row =
     (filter (\<lambda>i. is_cut (shs ! i) row) [0..<length shs],
      filter (\<lambda>i. is_above (shs ! i) row) [0..<length shs],
      fold (\<lambda>i f. if is_cut (shs ! i) row then mark_columns (shs ! i) row f else f)
        [0..<length shs] (replicate 13 False))"
  by (simp add: scan_row_def scan_fold WIDTH_def)

lemma length_clear_row: "length (clear_row shs row) = length shs"
  by (simp add: clear_row_def scan_row_eq move_shapes_down_fold remove_row_from_shapes_fold
      length_fold_update)

lemma not_cut_and_above: "is_above s row \<Longrightarrow> \<not> is_cut s row"
  by (simp add: is_above_def is_cut_def)

lemma nth_clear_row:
  assumes "j < length shs"
  shows "clear_row shs row ! j =
     (if is_above (shs ! j) row then move_down (shs ! j)
      else if is_cut (shs ! j) row then remove_row row (shs ! j)
      else shs ! j)"
  using assms
  by (simp add: clear_row_def scan_row_eq move_shapes_down_fold remove_row_from_shapes_fold
      length_fold_update nth_fold_update not_cut_and_above)

section \<open>Row clearing: counting cells\<close>

text \<open>The number of cells set in the local row \<open>r\<close> of a mask.\<close>

definition row_cells :: "BlockMask \<Rightarrow> int \<Rightarrow> nat" where
  "row_cells blk r = length (filter (\<lambda>x. blk ! nat (index_bm x r)) range4)"

lemma length_filter_of_bool:
  "length (filter P xs) = (\<Sum>x\<leftarrow>xs. of_bool (P x))"
  by (induction xs) simp_all

lemma upt_16: "[0..<16] = [0, 1, 2, 3, 4, 5, 6, 7, 8, 9, 10, 11, 12, 13, 14, 15]"
  by (simp add: upt_conv_Cons)

lemma row_cells_sum:
  "row_cells b r = of_bool (b ! nat (4 * r + 3)) + of_bool (b ! nat (4 * r + 2))
      + of_bool (b ! nat (4 * r + 1)) + of_bool (b ! nat (4 * r))"
  by (simp add: row_cells_def length_filter_of_bool range4_def index_bm_def)

lemma mask_cells_rows:
  "mask_cells b = row_cells b 0 + row_cells b 1 + row_cells b 2 + row_cells b 3"
  by (simp add: mask_cells_def length_filter_of_bool upt_16 row_cells_sum)

lemma new_block_of_0:
  "new_block_of b 0 =
     [b ! 4, b ! 5, b ! 6, b ! 7, b ! 8, b ! 9, b ! 10, b ! 11,
      b ! 12, b ! 13, b ! 14, b ! 15, False, False, False, False]"
  by (simp add: new_block_of_def range4_def index_bm_def eval_nat_numeral)


lemma new_block_of_1:
  "new_block_of b 1 =
     [b ! 0, b ! 1, b ! 2, b ! 3, b ! 8, b ! 9, b ! 10, b ! 11,
      b ! 12, b ! 13, b ! 14, b ! 15, False, False, False, False]"
  by (simp add: new_block_of_def range4_def index_bm_def eval_nat_numeral)

lemma new_block_of_2:
  "new_block_of b 2 =
     [b ! 0, b ! 1, b ! 2, b ! 3, b ! 4, b ! 5, b ! 6, b ! 7,
      b ! 12, b ! 13, b ! 14, b ! 15, False, False, False, False]"
  by (simp add: new_block_of_def range4_def index_bm_def eval_nat_numeral)

lemma new_block_of_3:
  "new_block_of b 3 =
     [b ! 0, b ! 1, b ! 2, b ! 3, b ! 4, b ! 5, b ! 6, b ! 7,
      b ! 8, b ! 9, b ! 10, b ! 11, False, False, False, False]"
  by (simp add: new_block_of_def range4_def index_bm_def eval_nat_numeral)

lemma row_cells_new_block_of_0:
  "row_cells (new_block_of b 0) 0 = row_cells b 1"
  "row_cells (new_block_of b 0) 1 = row_cells b 2"
  "row_cells (new_block_of b 0) 2 = row_cells b 3"
  "row_cells (new_block_of b 0) 3 = 0"
  by (simp_all add: row_cells_sum new_block_of_0)

lemma row_cells_new_block_of_1:
  "row_cells (new_block_of b 1) 0 = row_cells b 0"
  "row_cells (new_block_of b 1) 1 = row_cells b 2"
  "row_cells (new_block_of b 1) 2 = row_cells b 3"
  "row_cells (new_block_of b 1) 3 = 0"
  by (simp_all add: row_cells_sum new_block_of_1)

lemma row_cells_new_block_of_2:
  "row_cells (new_block_of b 2) 0 = row_cells b 0"
  "row_cells (new_block_of b 2) 1 = row_cells b 1"
  "row_cells (new_block_of b 2) 2 = row_cells b 3"
  "row_cells (new_block_of b 2) 3 = 0"
  by (simp_all add: row_cells_sum new_block_of_2)

lemma row_cells_new_block_of_3:
  "row_cells (new_block_of b 3) 0 = row_cells b 0"
  "row_cells (new_block_of b 3) 1 = row_cells b 1"
  "row_cells (new_block_of b 3) 2 = row_cells b 2"
  "row_cells (new_block_of b 3) 3 = 0"
  by (simp_all add: row_cells_sum new_block_of_3)

lemma mask_cells_new_block_of:
  assumes "0 \<le> r" "r < 4"
  shows "mask_cells (new_block_of b r) + row_cells b r = mask_cells b"
proof -
  from assms have "r = 0 \<or> r = 1 \<or> r = 2 \<or> r = 3" by auto
  then show ?thesis
    by (elim disjE)
      (simp_all only: mask_cells_rows [of "new_block_of b _"] mask_cells_rows [of b]
        row_cells_new_block_of_0 row_cells_new_block_of_1 row_cells_new_block_of_2
        row_cells_new_block_of_3 add_0_right add.assoc add.commute add.left_commute)
qed

text \<open>
  Clearing a row maps every shape on its own: a shape above moves down, a shape that cuts
  the row loses that row of its mask, a shape below stays. \<open>cut_cells\<close> is the number of
  cells a shape loses, \<open>cut_cols\<close> the board columns it marks.
\<close>

definition clear_step :: "int \<Rightarrow> TetrisBlock \<Rightarrow> TetrisBlock" where
  "clear_step row s =
     (if is_above s row then move_down s
      else if is_cut s row then remove_row row s
      else s)"

lemma clear_row_map: "clear_row shs row = map (clear_step row) shs"
  by (rule nth_equalityI) (simp_all add: length_clear_row nth_clear_row clear_step_def)

definition cut_cells :: "int \<Rightarrow> TetrisBlock \<Rightarrow> nat" where
  "cut_cells row s =
     (if is_cut s row then row_cells (block s) (row - vec_y (position s)) else 0)"

lemma mask_cells_clear_step:
  "mask_cells (block (clear_step row s)) + cut_cells row s = mask_cells (block s)"
proof (cases "is_cut s row")
  case True
  then have r: "0 \<le> row - vec_y (position s)" "row - vec_y (position s) < 4"
    by (simp_all add: is_cut_def)
  from True have "\<not> is_above s row" by (simp add: is_above_def is_cut_def)
  with True show ?thesis
    using mask_cells_new_block_of [OF r, of "block s"]
    by (simp add: clear_step_def cut_cells_def remove_row_def)
next
  case False
  then show ?thesis
    by (simp add: clear_step_def cut_cells_def move_down_def)
qed

lemma total_cells_clear_row:
  "total_cells (clear_row shs row) + sum_list (map (cut_cells row) shs) = total_cells shs"
proof (induction shs)
  case Nil
  show ?case by (simp add: clear_row_map total_cells_def)
next
  case (Cons s shs)
  from Cons.IH mask_cells_clear_step [of row s] show ?case
    by (simp add: clear_row_map total_cells_def)
qed

definition cut_cols :: "int \<Rightarrow> TetrisBlock \<Rightarrow> int set" where
  "cut_cols row s =
     (if is_cut s row
      then (\<lambda>x. vec_x (position s) + x) `
             {x \<in> set range4. block s ! nat (index_bm x (row - vec_y (position s)))}
      else {})"

lemma card_cut_cols: "card (cut_cols row s) \<le> cut_cells row s"
proof (cases "is_cut s row")
  case True
  have "card ((\<lambda>x. vec_x (position s) + x) `
             {x \<in> set range4. block s ! nat (index_bm x (row - vec_y (position s)))})
      \<le> card {x \<in> set range4. block s ! nat (index_bm x (row - vec_y (position s)))}"
    by (rule card_image_le) simp
  also have "\<dots> = card (set (filter (\<lambda>x. block s ! nat (index_bm x (row - vec_y (position s)))) range4))"
    by simp
  also have "\<dots> \<le> row_cells (block s) (row - vec_y (position s))"
    unfolding row_cells_def by (rule card_length)
  finally show ?thesis using True by (simp add: cut_cols_def cut_cells_def)
next
  case False
  then show ?thesis by (simp add: cut_cols_def cut_cells_def)
qed

lemma finite_cut_cols: "finite (cut_cols row s)"
  by (simp add: cut_cols_def)

lemma card_cut_cols_list:
  "card (\<Union>s\<in>set shs. cut_cols row s) \<le> sum_list (map (cut_cells row) shs)"
proof (induction shs)
  case Nil
  show ?case by simp
next
  case (Cons s shs)
  have "card (\<Union>s\<in>set (s # shs). cut_cols row s)
      \<le> card (cut_cols row s) + card (\<Union>s\<in>set shs. cut_cols row s)"
    by (simp add: card_Un_le)
  with Cons.IH card_cut_cols [of row s] show ?case by simp
qed

text \<open>The scanned row is full: every column of the board is marked.\<close>

lemma filled_cols:
  assumes "list_all (\<lambda>b. b) (snd (snd (scan_row shs row)))"
  shows "{0..<13} \<subseteq> (\<Union>s\<in>set shs. cut_cols row s)"
proof
  fix c :: int
  assume c: "c \<in> {0..<13}"
  let ?fill = "snd (snd (scan_row shs row))"
  have len: "length ?fill = 13"
    by (simp add: scan_row_eq length_fill_fold)
  from c have n: "nat c < 13" by auto
  with assms len have "?fill ! nat c"
    by (simp add: list_all_length)
  then obtain i x where i: "i < length shs" "is_cut (shs ! i) row"
    and x: "x \<in> set range4" "vec_x (position (shs ! i)) + x = int (nat c)"
      "block (shs ! i) ! nat (index_bm x (row - vec_y (position (shs ! i))))"
    using n by (auto simp add: scan_row_eq nth_fill_fold)
  from c x have "c \<in> cut_cols row (shs ! i)"
    using i by (auto simp add: cut_cols_def)
  with i show "c \<in> (\<Union>s\<in>set shs. cut_cols row s)" by auto
qed

lemma filled_cut_cells:
  assumes "list_all (\<lambda>b. b) (snd (snd (scan_row shs row)))"
  shows "13 \<le> sum_list (map (cut_cells row) shs)"
proof -
  have "card {0..<13::int} \<le> card (\<Union>s\<in>set shs. cut_cols row s)"
    by (rule card_mono) (simp_all add: finite_cut_cols filled_cols [OF assms])
  with card_cut_cols_list [of row shs] show ?thesis by simp
qed


lemma clear_row_decreases:
  assumes "scan_row shs row = (cut_shapes, above_shapes, is_column_filled)"
    and "list_all (\<lambda>b. b) is_column_filled"
  shows "remove_row_from_shapes cut_shapes row (move_shapes_down above_shapes shs) =
           clear_row shs row"
    and "total_cells (clear_row shs row) + 13 \<le> total_cells shs"
proof -
  show "remove_row_from_shapes cut_shapes row (move_shapes_down above_shapes shs) =
      clear_row shs row"
    using assms(1) by (simp add: clear_row_def)
  have "list_all (\<lambda>b. b) (snd (snd (scan_row shs row)))"
    using assms by simp
  from filled_cut_cells [OF this] total_cells_clear_row [of shs row]
  show "total_cells (clear_row shs row) + 13 \<le> total_cells shs" by simp
qed

section \<open>The row-clearing loop (main.py)\<close>

text \<open>
  The \<open>while row < HEIGHT\<close> loop of \<open>clear_full_rows\<close>, with the list of shapes (which the
  program mutates in place) returned beside the count. After a cleared row the row index
  stays; the loop still ends because every cleared row removes cells: the measure is the
  number of occupied cells, then the rows left to scan.
\<close>

function clear_full_rows_loop :: "TetrisBlock list \<Rightarrow> int \<Rightarrow> int \<Rightarrow> int \<times> TetrisBlock list" where
  "clear_full_rows_loop shs row number_cleared_rows =
     (if row < HEIGHT then
        (case scan_row shs row of (cut_shapes, above_shapes, is_column_filled) \<Rightarrow>
           if \<not> list_all (\<lambda>b. b) is_column_filled
           then clear_full_rows_loop shs (row + 1) number_cleared_rows
           else clear_full_rows_loop
                  (remove_row_from_shapes cut_shapes row (move_shapes_down above_shapes shs))
                  row (number_cleared_rows + 1))
      else (number_cleared_rows, shs))"
  by pat_completeness auto
termination
proof (relation "measures [\<lambda>(shs, row, n). total_cells shs, \<lambda>(shs, row, n). nat (HEIGHT - row)]")
  show "wf (measures [\<lambda>(shs, row, n). total_cells shs, \<lambda>(shs, row, n). nat (HEIGHT - row)])"
    by simp
next
  fix shs :: "TetrisBlock list" and row number_cleared_rows :: int
  assume "row < HEIGHT"
  then show "((shs, row + 1, number_cleared_rows), shs, row, number_cleared_rows)
      \<in> measures [\<lambda>(shs, row, n). total_cells shs, \<lambda>(shs, row, n). nat (HEIGHT - row)]"
    by simp
next
  fix shs :: "TetrisBlock list" and row number_cleared_rows :: int
    and cut_shapes above_shapes :: "nat list" and is_column_filled :: "bool list"
    and y :: "nat list \<times> bool list"
  assume "(cut_shapes, y) = scan_row shs row" "(above_shapes, is_column_filled) = y"
    and "\<not> \<not> list_all (\<lambda>b. b) is_column_filled"
  then have "scan_row shs row = (cut_shapes, above_shapes, is_column_filled)"
    and "list_all (\<lambda>b. b) is_column_filled"
    by simp_all
  from clear_row_decreases [OF this]
  show "((remove_row_from_shapes cut_shapes row (move_shapes_down above_shapes shs), row,
       number_cleared_rows + 1), shs, row, number_cleared_rows)
      \<in> measures [\<lambda>(shs, row, n). total_cells shs, \<lambda>(shs, row, n). nat (HEIGHT - row)]"
    by simp
qed

definition clear_full_rows :: "TetrisBlock list \<Rightarrow> int \<times> TetrisBlock list" where
  "clear_full_rows shs = clear_full_rows_loop shs 0 0"

section \<open>Manage shapes and the frame (main.py)\<close>

text \<open>
  \<open>get_new_shape\<close> draws the shape type with \<open>random.choice\<close>; the drawn type is a
  parameter here. \<open>frame\<close> draws at most twice (the spawn after settling and the spawn of
  \<open>reset_game\<close>), so it takes two draws, \<open>choice1\<close> and \<open>choice2\<close>.
\<close>

definition get_new_shape :: "TetrisBlockShape \<Rightarrow> TetrisBlock" where
  "get_new_shape shape_type =
     \<lparr>position = \<lparr>vec_x = WIDTH div 2 - 2, vec_y = HEIGHT - 4\<rparr>,
      block = BLOCK_MASKS shape_type,
      color = BLOCK_COLORS shape_type\<rparr>"

definition spawn_shape :: "TetrisBlockShape \<Rightarrow> GameContext \<Rightarrow> GameContext" where
  "spawn_shape choice ctx =
     ctx\<lparr>shapes := shapes ctx @ [next_shape ctx], next_shape := get_new_shape choice\<rparr>"

definition move_shape :: "TetrisBlock \<Rightarrow> int \<Rightarrow> TetrisBlock" where
  "move_shape shape key =
     (if key = KEY_LEFT then shape\<lparr>position := (position shape)\<lparr>vec_x := vec_x (position shape) - 1\<rparr>\<rparr>
      else if key = KEY_RIGHT then shape\<lparr>position := (position shape)\<lparr>vec_x := vec_x (position shape) + 1\<rparr>\<rparr>
      else if key = KEY_UP then shape\<lparr>block := rotate_shape (block shape)\<rparr>
      else if key = KEY_DOWN then shape\<lparr>position := (position shape)\<lparr>vec_y := vec_y (position shape) - 1\<rparr>\<rparr>
      else shape)"

definition is_in_bounds :: "TetrisBlock \<Rightarrow> bool" where
  "is_in_bounds shape =
     list_all (\<lambda>x.
        list_all (\<lambda>y.
           if \<not> block shape ! nat (index_bm x y) then True
           else \<not> (vec_x (position shape) + x < 0
                   \<or> vec_x (position shape) + x \<ge> WIDTH
                   \<or> vec_y (position shape) + y < 0))
          range4)
       range4"

definition reset_game :: "TetrisBlockShape \<Rightarrow> GameContext \<Rightarrow> GameContext" where
  "reset_game choice ctx =
     (spawn_shape choice (ctx\<lparr>points := 0, shapes := []\<rparr>))
       \<lparr>game_started := False, level := 0, cleared_rows := 0\<rparr>"

text \<open>
  The block of \<open>frame\<close> under \<open>if not left_right_up\<close>: clear the full rows, add points and
  level, spawn the next shape, raise the highscore, and reset the game when the new shape
  collides.
\<close>

definition settle :: "TetrisBlockShape \<Rightarrow> TetrisBlockShape \<Rightarrow> GameContext \<Rightarrow> GameContext option" where
  "settle choice1 choice2 ctx =
     (case clear_full_rows (shapes ctx) of (num_deleted_rows, shs) \<Rightarrow>
        let ctx1 = update_points (ctx\<lparr>shapes := shs\<rparr>) num_deleted_rows;
            ctx2 = update_level ctx1 num_deleted_rows;
            ctx3 = spawn_shape choice1 ctx2;
            ctx4 = ctx3\<lparr>highscore := max (points ctx3) (highscore ctx3)\<rparr>
        in do {
          game_over \<leftarrow> intersects_any (shapes ctx4);
          if game_over then Some (reset_game choice2 ctx4) else Some ctx4
        })"

text \<open>
  \<open>frame\<close> mutates the context in place and returns nothing; here it returns the new
  context, or \<open>None\<close> where \<open>context.shapes[-1]\<close> raises IndexError. The active shape is
  an object of the list, so moving it and restoring it rewrite the last element.
\<close>

definition frame :: "int \<Rightarrow> TetrisBlockShape \<Rightarrow> TetrisBlockShape \<Rightarrow> GameContext \<Rightarrow> GameContext option" where
  "frame key choice1 choice2 ctx =
     (if key \<notin> set ARROW_KEYS then Some ctx
      else if shapes ctx = [] then None
      else
        let shape = last (shapes ctx);
            old_pos = position shape;
            old_block = block shape;
            left_right_up = (key \<in> set [KEY_LEFT, KEY_RIGHT, KEY_UP]);
            shape1 = move_shape shape key;
            ctx1 = ctx\<lparr>shapes := butlast (shapes ctx) @ [shape1]\<rparr>;
            out_of_bounds = (\<not> is_in_bounds shape1)
        in do {
          collides \<leftarrow> intersects_any (shapes ctx1);
          if out_of_bounds \<or> collides then
            let ctx2 = ctx1\<lparr>shapes :=
                  butlast (shapes ctx) @ [shape1\<lparr>position := old_pos, block := old_block\<rparr>]\<rparr>
            in if \<not> left_right_up then settle choice1 choice2 ctx2 else Some ctx2
          else Some ctx1
        })"

section \<open>Properties of the row-clearing loop\<close>

declare clear_full_rows_loop.simps [simp del]

lemma loop_bound:
  "n \<le> fst (clear_full_rows_loop shs row n)
   \<and> nat (fst (clear_full_rows_loop shs row n) - n) * 13
       + total_cells (snd (clear_full_rows_loop shs row n)) \<le> total_cells shs"
proof (induction shs row n rule: clear_full_rows_loop.induct)
  case (1 shs row n)
  show ?case
  proof (cases "row < HEIGHT")
    case False
    then show ?thesis by (simp add: clear_full_rows_loop.simps [of shs row n])
  next
    case True
    obtain cut_shapes above_shapes is_column_filled
      where sc: "scan_row shs row = (cut_shapes, above_shapes, is_column_filled)"
      by (cases "scan_row shs row") auto
    show ?thesis
    proof (cases "list_all (\<lambda>b. b) is_column_filled")
      case False
      with True sc have eq: "clear_full_rows_loop shs row n = clear_full_rows_loop shs (row + 1) n"
        by (simp add: clear_full_rows_loop.simps [of shs row n])
      from "1.IH"(1) [OF True sc [symmetric] refl False] show ?thesis
        unfolding eq by simp
    next
      case full: True
      note dec = clear_row_decreases [OF sc full]
      from True sc full have eq: "clear_full_rows_loop shs row n =
          clear_full_rows_loop (clear_row shs row) row (n + 1)"
        by (simp add: clear_full_rows_loop.simps [of shs row n] dec(1))
      have ih: "n + 1 \<le> fst (clear_full_rows_loop (clear_row shs row) row (n + 1))
        \<and> nat (fst (clear_full_rows_loop (clear_row shs row) row (n + 1)) - (n + 1)) * 13
           + total_cells (snd (clear_full_rows_loop (clear_row shs row) row (n + 1)))
          \<le> total_cells (clear_row shs row)"
        using "1.IH"(2) [OF True sc [symmetric] refl] full by (simp add: dec(1))
      define k where "k = fst (clear_full_rows_loop (clear_row shs row) row (n + 1))"
      from ih have k: "n + 1 \<le> k" by (simp add: k_def)
      then have "nat (k - n) = Suc (nat (k - (n + 1)))" by simp
      with ih dec(2) k show ?thesis
        unfolding eq k_def [symmetric] by simp
    qed
  qed
qed


text \<open>
  The board as the specification sees it: a shape occupies the board cell \<open>(col, row)\<close> when
  the cell lies in its 4x4 box and the mask has the cell set; a row is full when every
  column \<open>0 \<le> col < WIDTH\<close> is occupied by some shape. \<open>occupied_cells\<close> counts the cells
  set in the masks of a list of shapes.
\<close>

definition occupied_at :: "TetrisBlock \<Rightarrow> int \<Rightarrow> int \<Rightarrow> bool" where
  "occupied_at s col row =
     (vec_x (position s) \<le> col \<and> col < vec_x (position s) + 4
      \<and> vec_y (position s) \<le> row \<and> row < vec_y (position s) + 4
      \<and> block s ! nat (index_bm (col - vec_x (position s)) (row - vec_y (position s))))"

definition row_full :: "TetrisBlock list \<Rightarrow> int \<Rightarrow> bool" where
  "row_full shs row =
     list_all (\<lambda>col. list_ex (\<lambda>s. occupied_at s col row) shs) (py_range 0 WIDTH)"

definition occupied_cells :: "TetrisBlock list \<Rightarrow> nat" where
  "occupied_cells shs = sum_list (map (\<lambda>s. length (filter (\<lambda>b. b) (block s))) shs)"

lemma cut_cols_occupied:
  assumes "c \<in> cut_cols row s"
  shows "occupied_at s c row"
proof -
  from assms have cut: "is_cut s row"
    by (auto simp add: cut_cols_def split: if_splits)
  with assms obtain x where x: "x \<in> set range4" "c = vec_x (position s) + x"
    "block s ! nat (index_bm x (row - vec_y (position s)))"
    by (auto simp add: cut_cols_def)
  from x(1) have "0 \<le> x" "x < 4" by (auto simp add: range4_def)
  with x cut show ?thesis
    by (simp add: occupied_at_def is_cut_def)
qed

lemma filled_row_full:
  assumes "list_all (\<lambda>b. b) (snd (snd (scan_row shs row)))"
  shows "row_full shs row"
  unfolding row_full_def list_all_iff list_ex_iff
proof
  fix col :: int
  assume "col \<in> set (py_range 0 WIDTH)"
  then have "col \<in> {0..<13}" by (auto simp add: py_range_def WIDTH_def)
  with filled_cols [OF assms] obtain s where "s \<in> set shs" "col \<in> cut_cols row s" by auto
  then show "\<exists>s\<in>set shs. occupied_at s col row"
    using cut_cols_occupied by blast
qed

lemma loop_step_not_full:
  assumes "row < HEIGHT" "\<not> row_full shs row"
  shows "clear_full_rows_loop shs row n = clear_full_rows_loop shs (row + 1) n"
proof -
  from assms(2) filled_row_full have "\<not> list_all (\<lambda>b. b) (snd (snd (scan_row shs row)))"
    by blast
  with assms(1) show ?thesis
    by (cases "scan_row shs row") (simp add: clear_full_rows_loop.simps [of shs row n])
qed

lemma loop_no_full_row:
  assumes "\<forall>r. row \<le> r \<and> r < HEIGHT \<longrightarrow> \<not> row_full shs r"
  shows "clear_full_rows_loop shs row n = (n, shs)"
  using assms
proof (induction "nat (HEIGHT - row)" arbitrary: row)
  case 0
  then have "\<not> row < HEIGHT" by simp
  then show ?case by (simp add: clear_full_rows_loop.simps [of shs row n])
next
  case (Suc k)
  then have lt: "row < HEIGHT" and nf: "\<not> row_full shs row" by auto
  from Suc.hyps(2) have "k = nat (HEIGHT - (row + 1))" by simp
  moreover from Suc.prems have "\<forall>r. row + 1 \<le> r \<and> r < HEIGHT \<longrightarrow> \<not> row_full shs r" by simp
  ultimately have "clear_full_rows_loop shs (row + 1) n = (n, shs)"
    by (rule Suc.hyps(1))
  with loop_step_not_full [OF lt nf] show ?case by simp
qed

lemma sum_list_of_bool_nth:
  "(\<Sum>b\<leftarrow>blk. of_bool b) = (\<Sum>i\<leftarrow>[0..<length blk]. of_bool (blk ! i) :: nat)"
proof -
  have "map (\<lambda>i. of_bool (blk ! i) :: nat) [0..<length blk] =
      map of_bool (map ((!) blk) [0..<length blk])"
    by simp
  also have "\<dots> = map of_bool blk"
    by (simp only: map_nth)
  finally show ?thesis by simp
qed

lemma mask_cells_length16:
  assumes "length blk = 16"
  shows "mask_cells blk = length (filter (\<lambda>b. b) blk)"
  using assms sum_list_of_bool_nth [of blk]
  by (simp add: mask_cells_def length_filter_of_bool)

lemma total_cells_occupied:
  assumes "\<forall>s\<in>set shs. length (block s) = 16"
  shows "total_cells shs = occupied_cells shs"
  using assms
  by (induction shs) (simp_all add: total_cells_def occupied_cells_def mask_cells_length16)

lemma length_fold_preserved:
  assumes "\<And>x a. length (f x a) = length a"
  shows "length (fold f xs a) = length a"
  by (induction xs arbitrary: a) (simp_all add: assms)

lemma length_new_block_of: "length (new_block_of b r) = 16"
proof -
  have "length (new_block_of b r) = length (replicate 16 False)"
    unfolding new_block_of_def
    by (intro length_fold_preserved) simp
  then show ?thesis by simp
qed

lemma clear_row_length16:
  assumes "\<forall>s\<in>set shs. length (block s) = 16"
  shows "\<forall>s\<in>set (clear_row shs row). length (block s) = 16"
  using assms
  by (auto simp add: clear_row_map clear_step_def move_down_def remove_row_def
      length_new_block_of)


lemma loop_length16:
  assumes "\<forall>s\<in>set shs. length (block s) = 16"
  shows "\<forall>s\<in>set (snd (clear_full_rows_loop shs row n)). length (block s) = 16"
  using assms
proof (induction shs row n rule: clear_full_rows_loop.induct)
  case (1 shs row n)
  show ?case
  proof (cases "row < HEIGHT")
    case False
    with "1.prems" show ?thesis by (simp add: clear_full_rows_loop.simps [of shs row n])
  next
    case True
    obtain cut_shapes above_shapes is_column_filled
      where sc: "scan_row shs row = (cut_shapes, above_shapes, is_column_filled)"
      by (cases "scan_row shs row") auto
    show ?thesis
    proof (cases "list_all (\<lambda>b. b) is_column_filled")
      case False
      with True sc have eq: "clear_full_rows_loop shs row n = clear_full_rows_loop shs (row + 1) n"
        by (simp add: clear_full_rows_loop.simps [of shs row n])
      from "1.IH"(1) [OF True sc [symmetric] refl False "1.prems"] show ?thesis
        unfolding eq .
    next
      case full: True
      note dec = clear_row_decreases [OF sc full]
      from True sc full have eq: "clear_full_rows_loop shs row n =
          clear_full_rows_loop (clear_row shs row) row (n + 1)"
        by (simp add: clear_full_rows_loop.simps [of shs row n] dec(1))
      have "\<forall>s\<in>set (clear_row shs row). length (block s) = 16"
        using "1.prems" by (rule clear_row_length16)
      with "1.IH"(2) [OF True sc [symmetric] refl] full show ?thesis
        unfolding eq by (simp add: dec(1))
    qed
  qed
qed

text \<open>
  Five shapes, four of them lying side by side on the floor: row 0 of the board is full.
\<close>

definition full_row_shapes :: "TetrisBlock list" where
  "full_row_shapes =
     [\<lparr>position = \<lparr>vec_x = 0, vec_y = -1\<rparr>, block = BLOCK_MASKS Shape_I, color = 1\<rparr>,
      \<lparr>position = \<lparr>vec_x = 4, vec_y = -1\<rparr>, block = BLOCK_MASKS Shape_I, color = 1\<rparr>,
      \<lparr>position = \<lparr>vec_x = 8, vec_y = -1\<rparr>, block = BLOCK_MASKS Shape_I, color = 1\<rparr>,
      \<lparr>position = \<lparr>vec_x = 9, vec_y = -1\<rparr>, block = BLOCK_MASKS Shape_I, color = 1\<rparr>,
      \<lparr>position = \<lparr>vec_x = 4, vec_y = 0\<rparr>, block = BLOCK_MASKS Shape_O, color = 4\<rparr>]"



section \<open>Rotation\<close>

lemma rotate_shape_cells:
  "rotate_shape m =
     [m ! 12, m ! 8, m ! 4, m ! 0,
      m ! 13, m ! 9, m ! 5, m ! 1,
      m ! 14, m ! 10, m ! 6, m ! 2,
      m ! 15, m ! 11, m ! 7, m ! 3]"
  by (simp add: rotate_shape_def range4_def index_bm_def eval_nat_numeral)

lemma list16_cells:
  assumes "length (m :: 'a list) = 16"
  shows "m = [m ! 0, m ! 1, m ! 2, m ! 3, m ! 4, m ! 5, m ! 6, m ! 7,
              m ! 8, m ! 9, m ! 10, m ! 11, m ! 12, m ! 13, m ! 14, m ! 15]"
  using assms by (simp add: list_eq_iff_nth_eq less_Suc_eq eval_nat_numeral nth_Cons')

text \<open>
  Claim C2. Rotation is a total function on masks, it yields a 16-cell mask, the cell at
  local \<open>(x, y)\<close> of a 16-cell mask is found at local \<open>(y, 3 - x)\<close> of the rotated mask
  under the slot mapping \<open>index_bm\<close>, and four rotations give back the mask.
\<close>

theorem rotate_shape_order_four:
  assumes "length m = 16"
  shows "rotate_shape (rotate_shape (rotate_shape (rotate_shape m))) = m
    \<and> length (rotate_shape m) = 16
    \<and> (\<forall>x\<in>set range4. \<forall>y\<in>set range4.
          rotate_shape m ! nat (index_bm y (3 - x)) = m ! nat (index_bm x y))"
proof (intro conjI)
  have "rotate_shape (rotate_shape (rotate_shape (rotate_shape m))) =
      [m ! 0, m ! 1, m ! 2, m ! 3, m ! 4, m ! 5, m ! 6, m ! 7,
       m ! 8, m ! 9, m ! 10, m ! 11, m ! 12, m ! 13, m ! 14, m ! 15]"
    by (simp add: rotate_shape_cells)
  also have "\<dots> = m"
    using list16_cells [OF assms] by simp
  finally show "rotate_shape (rotate_shape (rotate_shape (rotate_shape m))) = m" .
next
  show "length (rotate_shape m) = 16"
    by (simp add: rotate_shape_cells)
next
  show "\<forall>x\<in>set range4. \<forall>y\<in>set range4.
      rotate_shape m ! nat (index_bm y (3 - x)) = m ! nat (index_bm x y)"
    by (simp add: rotate_shape_cells range4_def index_bm_def)
qed

theorem rotate_shape_order_four_witness:
  "rotate_shape (rotate_shape (rotate_shape (rotate_shape (BLOCK_MASKS Shape_L)))) =
     BLOCK_MASKS Shape_L
   \<and> length (rotate_shape (BLOCK_MASKS Shape_L)) = 16
   \<and> rotate_shape (BLOCK_MASKS Shape_L) ! nat (index_bm 2 (3 - 1)) =
       BLOCK_MASKS Shape_L ! nat (index_bm 1 2)
   \<and> rotate_shape (BLOCK_MASKS Shape_L) \<noteq> BLOCK_MASKS Shape_L"
proof -
  have len: "length (BLOCK_MASKS Shape_L) = 16" by simp
  have mem: "(1::int) \<in> set range4" "(2::int) \<in> set range4" by (simp_all add: range4_def)
  have neq: "rotate_shape (BLOCK_MASKS Shape_L) \<noteq> BLOCK_MASKS Shape_L"
    by (simp add: rotate_shape_cells)
  from rotate_shape_order_four [OF len] mem neq show ?thesis by blast
qed

section \<open>Scoring\<close>

text \<open>
  Claim C5. \<open>update_points\<close> adds \<open>factor * 10 * (level + 1)\<close> to the points, with factor
  1, 3, 5, 8 for 1, 2, 3, 4 cleared rows and 0 for every other count, and changes nothing
  else; at level 0 that is 10, 30, 50, 80 and 0 points.
\<close>

theorem update_points_table:
  "update_points ctx n =
     ctx\<lparr>points := points ctx +
        (if n = 1 then 1 else if n = 2 then 3 else if n = 3 then 5 else if n = 4 then 8 else 0)
          * 10 * (level ctx + 1)\<rparr>
   \<and> points (update_points ctx 1) = points ctx + 1 * 10 * (level ctx + 1)
   \<and> points (update_points ctx 2) = points ctx + 3 * 10 * (level ctx + 1)
   \<and> points (update_points ctx 3) = points ctx + 5 * 10 * (level ctx + 1)
   \<and> points (update_points ctx 4) = points ctx + 8 * 10 * (level ctx + 1)
   \<and> (n \<notin> {1, 2, 3, 4} \<longrightarrow> points (update_points ctx n) = points ctx)
   \<and> (level ctx = 0 \<longrightarrow>
        points (update_points ctx 1) = points ctx + 10
      \<and> points (update_points ctx 2) = points ctx + 30
      \<and> points (update_points ctx 3) = points ctx + 50
      \<and> points (update_points ctx 4) = points ctx + 80
      \<and> points (update_points ctx 0) = points ctx)"
  by (simp add: update_points_def POINTS_PER_FULL_ROW_def)

text \<open>A session with one square shape lying on the floor, and the same shape as the next.\<close>

definition demo_shape :: TetrisBlock where
  "demo_shape = \<lparr>position = \<lparr>vec_x = 4, vec_y = -1\<rparr>, block = BLOCK_MASKS Shape_O, color = 4\<rparr>"

definition demo_ctx :: GameContext where
  "demo_ctx =
     \<lparr>points = 120, paused = False, game_started = True, shapes = [demo_shape],
      next_shape = demo_shape, highscore = 200, level = 0, cleared_rows = 7\<rparr>"

theorem update_points_table_witness:
  "level demo_ctx = 0 \<and> (7::int) \<notin> {1, 2, 3, 4}
   \<and> points (update_points demo_ctx 7) = 120
   \<and> points (update_points demo_ctx 1) = 130
   \<and> points (update_points demo_ctx 2) = 150
   \<and> points (update_points demo_ctx 3) = 170
   \<and> points (update_points demo_ctx 4) = 200
   \<and> points (update_points demo_ctx 0) = 120"
  using update_points_table [of demo_ctx 7]
  by (simp add: demo_ctx_def)

text \<open>
  Claim C4. When no row \<open>0 \<le> row < HEIGHT\<close> of the board is full, \<open>clear_full_rows\<close> returns 0
  and leaves the list of shapes (every mask and position) as it was; at a row that is not
  full the loop goes on to the next row with the same shapes and the same count.
\<close>

theorem clear_full_rows_no_full_row:
  assumes "\<forall>row. 0 \<le> row \<and> row < HEIGHT \<longrightarrow> \<not> row_full shs row"
  shows "clear_full_rows shs = (0, shs)
    \<and> (\<forall>row n. 0 \<le> row \<and> row < HEIGHT \<longrightarrow>
          clear_full_rows_loop shs row n = clear_full_rows_loop shs (row + 1) n)"
proof
  from assms have "\<forall>r. 0 \<le> r \<and> r < HEIGHT \<longrightarrow> \<not> row_full shs r" by simp
  then show "clear_full_rows shs = (0, shs)"
    unfolding clear_full_rows_def by (rule loop_no_full_row)
next
  from assms show "\<forall>row n. 0 \<le> row \<and> row < HEIGHT \<longrightarrow>
      clear_full_rows_loop shs row n = clear_full_rows_loop shs (row + 1) n"
    by (simp add: loop_step_not_full)
qed

theorem clear_full_rows_no_full_row_witness:
  "\<not> row_full [demo_shape] 0
   \<and> clear_full_rows [demo_shape] = (0, [demo_shape])
   \<and> clear_full_rows_loop [demo_shape] 3 0 = clear_full_rows_loop [demo_shape] (3 + 1) 0"
proof -
  have col: "(0::int) \<in> set (py_range 0 WIDTH)"
    by (simp add: py_range_def WIDTH_def)
  have "\<not> row_full [demo_shape] row" for row
  proof
    assume "row_full [demo_shape] row"
    with col have "occupied_at demo_shape 0 row"
      unfolding row_full_def list_all_iff by fastforce
    then show False
      by (simp add: occupied_at_def demo_shape_def)
  qed
  then have nf: "\<forall>row. 0 \<le> row \<and> row < HEIGHT \<longrightarrow> \<not> row_full [demo_shape] row"
    by simp
  have "(0::int) \<le> 3 \<and> 3 < HEIGHT" "(0::int) \<le> 0 \<and> 0 < HEIGHT"
    by (simp_all add: HEIGHT_def)
  with nf clear_full_rows_no_full_row [OF nf] show ?thesis by blast
qed

text \<open>
  Claim C10. \<open>clear_full_rows\<close> terminates on every list of shapes: the loop is a total
  function, its termination proved above by the measure (occupied cells, rows left). On
  shapes with 16-cell masks every cleared row takes at least WIDTH occupied cells out of
  the masks, so WIDTH times the returned count, plus the cells left, is at most the
  number of occupied cells at the start, and the count is at most that number divided by
  WIDTH.
\<close>

theorem clear_full_rows_terminates_bounded:
  assumes "\<forall>s\<in>set shs. length (block s) = 16"
  shows "0 \<le> fst (clear_full_rows shs)
    \<and> fst (clear_full_rows shs) * WIDTH + int (occupied_cells (snd (clear_full_rows shs)))
        \<le> int (occupied_cells shs)
    \<and> fst (clear_full_rows shs) \<le> int (occupied_cells shs) div WIDTH
    \<and> (\<forall>row cut_shapes above_shapes is_column_filled.
          scan_row shs row = (cut_shapes, above_shapes, is_column_filled)
          \<and> list_all (\<lambda>b. b) is_column_filled \<longrightarrow>
          occupied_cells (remove_row_from_shapes cut_shapes row
              (move_shapes_down above_shapes shs)) + nat WIDTH
            \<le> occupied_cells shs)"
proof -
  define k where "k = fst (clear_full_rows shs)"
  define shs' where "shs' = snd (clear_full_rows shs)"
  have wf': "\<forall>s\<in>set shs'. length (block s) = 16"
    unfolding shs'_def clear_full_rows_def using assms by (rule loop_length16)
  from loop_bound [of 0 shs 0]
  have k0: "0 \<le> k" and b: "nat k * 13 + total_cells shs' \<le> total_cells shs"
    by (simp_all add: k_def shs'_def clear_full_rows_def)
  from b have b': "nat k * 13 + occupied_cells shs' \<le> occupied_cells shs"
    by (simp add: total_cells_occupied [OF assms] total_cells_occupied [OF wf'])
  with k0 have le: "k * 13 + int (occupied_cells shs') \<le> int (occupied_cells shs)"
    by linarith
  then have dv: "k \<le> int (occupied_cells shs) div 13"
    by linarith
  have step: "occupied_cells (remove_row_from_shapes cut_shapes row
        (move_shapes_down above_shapes shs)) + 13 \<le> occupied_cells shs"
    if "scan_row shs row = (cut_shapes, above_shapes, is_column_filled)"
      and "list_all (\<lambda>b. b) is_column_filled"
    for row cut_shapes above_shapes is_column_filled
  proof -
    note dec = clear_row_decreases [OF that]
    have "\<forall>s\<in>set (clear_row shs row). length (block s) = 16"
      using assms by (rule clear_row_length16)
    from total_cells_occupied [OF this] total_cells_occupied [OF assms] dec show ?thesis
      by simp
  qed
  from k0 le dv step show ?thesis
    unfolding k_def shs'_def by (simp add: WIDTH_def)
qed

lemma full_row_scan:
  "scan_row full_row_shapes 0 =
     ([0, 1, 2, 3, 4], [],
      [True, True, True, True, True, True, True, True, True, True, True, True, True])"
  by (simp add: scan_row_def categorize_and_mark_shape_def full_row_shapes_def range4_def
      index_bm_def WIDTH_def upt_conv_Cons Let_def eval_nat_numeral)

text \<open>The five shapes after row 0 is cleared.\<close>

definition cleared_shapes :: "TetrisBlock list" where
  "cleared_shapes =
     [\<lparr>position = \<lparr>vec_x = 0, vec_y = -1\<rparr>, block = replicate 16 False, color = 1\<rparr>,
      \<lparr>position = \<lparr>vec_x = 4, vec_y = -1\<rparr>, block = replicate 16 False, color = 1\<rparr>,
      \<lparr>position = \<lparr>vec_x = 8, vec_y = -1\<rparr>, block = replicate 16 False, color = 1\<rparr>,
      \<lparr>position = \<lparr>vec_x = 9, vec_y = -1\<rparr>, block = replicate 16 False, color = 1\<rparr>,
      \<lparr>position = \<lparr>vec_x = 4, vec_y = 0\<rparr>,
       block = [False, True, True, False, False, True, True, False,
                False, False, False, False, False, False, False, False],
       color = 4\<rparr>]"

lemma full_row_cleared:
  "remove_row_from_shapes [0, 1, 2, 3, 4] 0 (move_shapes_down [] full_row_shapes) = cleared_shapes"
  by (simp add: remove_row_from_shapes_def move_shapes_down_def full_row_shapes_def
      cleared_shapes_def new_block_of_0 new_block_of_1 Let_def eval_nat_numeral)

lemma cleared_not_full: "\<not> row_full cleared_shapes row"
proof
  assume "row_full cleared_shapes row"
  moreover have "(0::int) \<in> set (py_range 0 WIDTH)"
    by (simp add: py_range_def WIDTH_def)
  ultimately have "\<exists>s\<in>set cleared_shapes. occupied_at s 0 row"
    unfolding row_full_def list_all_iff list_ex_iff by blast
  then have "0 \<le> row + 1 \<and> row + 1 < 4
      \<and> replicate 16 False ! nat (index_bm 0 (row + 1))"
    by (auto simp add: cleared_shapes_def occupied_at_def)
  moreover from this have "nat (index_bm 0 (row + 1)) < 16"
    by (auto simp add: index_bm_def)
  ultimately show False by simp
qed

lemma full_row_count: "clear_full_rows full_row_shapes = (1, cleared_shapes)"
proof -
  have h: "(0::int) < HEIGHT" by (simp add: HEIGHT_def)
  have c: "remove_row_from_shapes [0, Suc 0, 2, 3, 4] 0 (move_shapes_down [] full_row_shapes)
      = cleared_shapes"
    using full_row_cleared by simp
  have "clear_full_rows_loop full_row_shapes 0 0 = clear_full_rows_loop cleared_shapes 0 1"
    using h by (simp add: clear_full_rows_loop.simps [of full_row_shapes 0 0] full_row_scan c)
  also have "\<dots> = (1, cleared_shapes)"
    by (rule loop_no_full_row) (simp add: cleared_not_full)
  finally show ?thesis by (simp add: clear_full_rows_def)
qed

theorem clear_full_rows_terminates_bounded_witness:
  "map (\<lambda>s. length (block s)) full_row_shapes = [16, 16, 16, 16, 16]
   \<and> occupied_cells full_row_shapes = 20
   \<and> clear_full_rows full_row_shapes = (1, cleared_shapes)
   \<and> occupied_cells cleared_shapes = 4
   \<and> (1::int) * WIDTH + 4 \<le> 20
   \<and> (1::int) \<le> 20 div WIDTH
   \<and> occupied_cells (remove_row_from_shapes [0, 1, 2, 3, 4] 0
        (move_shapes_down [] full_row_shapes)) + 13 \<le> 20"
proof -
  have len: "\<forall>s\<in>set full_row_shapes. length (block s) = 16"
    by (simp add: full_row_shapes_def)
  have lens: "map (\<lambda>s. length (block s)) full_row_shapes = [16, 16, 16, 16, 16]"
    by (simp add: full_row_shapes_def)
  have occ: "occupied_cells full_row_shapes = 20"
    by (simp add: occupied_cells_def full_row_shapes_def)
  have occ': "occupied_cells cleared_shapes = 4"
    by (simp add: occupied_cells_def cleared_shapes_def)
  note inst = clear_full_rows_terminates_bounded [OF len, unfolded occ full_row_count]
  have "occupied_cells (remove_row_from_shapes [0, 1, 2, 3, 4] 0
        (move_shapes_down [] full_row_shapes)) + nat WIDTH \<le> 20"
    using inst full_row_scan by simp
  with inst lens occ occ' full_row_count show ?thesis by (simp add: WIDTH_def)
qed

section \<open>Touching bounding boxes\<close>

text \<open>
  The 4x4 box of a shape at position \<open>p\<close> holds the board cells \<open>(cx, cy)\<close> with
  \<open>in_box p cx cy\<close>. Two boxes overlap when a board cell lies in both; they touch when they
  do not overlap and are at most 4 apart on each axis (a shared edge or corner).
\<close>

definition in_box :: "Vector2 \<Rightarrow> int \<Rightarrow> int \<Rightarrow> bool" where
  "in_box p cx cy = (vec_x p \<le> cx \<and> cx < vec_x p + 4 \<and> vec_y p \<le> cy \<and> cy < vec_y p + 4)"

definition boxes_overlap :: "Vector2 \<Rightarrow> Vector2 \<Rightarrow> bool" where
  "boxes_overlap p q =
     (vec_x p < vec_x q + 4 \<and> vec_x q < vec_x p + 4
      \<and> vec_y p < vec_y q + 4 \<and> vec_y q < vec_y p + 4)"

definition boxes_touch :: "Vector2 \<Rightarrow> Vector2 \<Rightarrow> bool" where
  "boxes_touch p q =
     (\<not> boxes_overlap p q
      \<and> \<bar>vec_x p - vec_x q\<bar> \<le> 4 \<and> \<bar>vec_y p - vec_y q\<bar> \<le> 4)"

lemma boxes_overlap_cells:
  "boxes_overlap p q \<longleftrightarrow> (\<exists>cx cy. in_box p cx cy \<and> in_box q cx cy)"
proof
  assume "boxes_overlap p q"
  then have "in_box p (max (vec_x p) (vec_x q)) (max (vec_y p) (vec_y q))
      \<and> in_box q (max (vec_x p) (vec_x q)) (max (vec_y p) (vec_y q))"
    by (auto simp add: boxes_overlap_def in_box_def)
  then show "\<exists>cx cy. in_box p cx cy \<and> in_box q cx cy" by blast
next
  assume "\<exists>cx cy. in_box p cx cy \<and> in_box q cx cy"
  then show "boxes_overlap p q"
    by (auto simp add: boxes_overlap_def in_box_def)
qed

lemma check_collision_no_overlap:
  assumes "\<not> boxes_overlap (position a) (position b)"
  shows "\<not> check_collision
      (get_intersection_area (get_shape_bounds (position a)) (get_shape_bounds (position b))) a b"
proof -
  from assms have "py_range (max (vec_x (position a)) (vec_x (position b)))
        (min (vec_x (position a) + 4) (vec_x (position b) + 4)) = []
    \<or> py_range (max (vec_y (position a)) (vec_y (position b)))
        (min (vec_y (position a) + 4) (vec_y (position b) + 4)) = []"
    by (auto simp add: boxes_overlap_def py_range_def)
  then show ?thesis
    by (auto simp add: check_collision_def get_intersection_area_def get_shape_bounds_def
        list_ex_iff)
qed

lemma intersects_any_no_overlap:
  assumes "shs \<noteq> []"
    and "\<forall>other\<in>set (butlast shs). \<not> boxes_overlap (position (last shs)) (position other)"
  shows "intersects_any shs = Some False"
  using assms
  by (simp add: intersects_any_def Let_def list_ex_iff check_collision_no_overlap)

text \<open>
  Claim C3. When the boxes of two shapes touch without overlapping, \<open>intersects_any\<close>
  reports no collision, whichever of the two is the active (last) shape: no board cell
  lies in both boxes, so the region that \<open>check_collision\<close> scans is empty.
\<close>

theorem intersects_any_touching:
  assumes "boxes_touch (position a) (position b)"
  shows "intersects_any [a, b] = Some False
    \<and> intersects_any [b, a] = Some False
    \<and> \<not> check_collision
        (get_intersection_area (get_shape_bounds (position a)) (get_shape_bounds (position b)))
        a b
    \<and> \<not> (\<exists>cx cy. in_box (position a) cx cy \<and> in_box (position b) cx cy)"
proof -
  from assms have ab: "\<not> boxes_overlap (position a) (position b)"
    by (simp add: boxes_touch_def)
  then have ba: "\<not> boxes_overlap (position b) (position a)"
    by (auto simp add: boxes_overlap_def)
  have "intersects_any [a, b] = Some False"
    using ba by (intro intersects_any_no_overlap) simp_all
  moreover have "intersects_any [b, a] = Some False"
    using ab by (intro intersects_any_no_overlap) simp_all
  ultimately show ?thesis
    using ab check_collision_no_overlap [OF ab] by (simp add: boxes_overlap_cells)
qed

text \<open>Shapes whose boxes share an edge, and a corner, with the box of \<open>demo_shape\<close>.\<close>

definition edge_shape :: TetrisBlock where
  "edge_shape = \<lparr>position = \<lparr>vec_x = 8, vec_y = -1\<rparr>, block = BLOCK_MASKS Shape_I, color = 1\<rparr>"

definition corner_shape :: TetrisBlock where
  "corner_shape = \<lparr>position = \<lparr>vec_x = 0, vec_y = 3\<rparr>, block = BLOCK_MASKS Shape_I, color = 1\<rparr>"

theorem intersects_any_touching_witness:
  "boxes_touch (position demo_shape) (position edge_shape)
   \<and> intersects_any [demo_shape, edge_shape] = Some False
   \<and> intersects_any [edge_shape, demo_shape] = Some False
   \<and> boxes_touch (position demo_shape) (position corner_shape)
   \<and> intersects_any [demo_shape, corner_shape] = Some False"
proof -
  have e: "boxes_touch (position demo_shape) (position edge_shape)"
    by (simp add: boxes_touch_def boxes_overlap_def demo_shape_def edge_shape_def)
  have c: "boxes_touch (position demo_shape) (position corner_shape)"
    by (simp add: boxes_touch_def boxes_overlap_def demo_shape_def corner_shape_def)
  from e c intersects_any_touching [OF e] intersects_any_touching [OF c] show ?thesis
    by simp
qed

section \<open>The frame\<close>

text \<open>The context after the move of the active shape, and the validity check of \<open>frame\<close>.\<close>

definition moved_ctx :: "GameContext \<Rightarrow> int \<Rightarrow> GameContext" where
  "moved_ctx ctx key = ctx\<lparr>shapes := butlast (shapes ctx) @ [move_shape (last (shapes ctx)) key]\<rparr>"

definition move_valid :: "GameContext \<Rightarrow> int \<Rightarrow> bool" where
  "move_valid ctx key =
     (is_in_bounds (move_shape (last (shapes ctx)) key)
      \<and> intersects_any (shapes (moved_ctx ctx key)) = Some False)"

lemma move_shape_restore:
  "(move_shape s key)\<lparr>position := position s, block := block s\<rparr> = s"
  by (simp add: move_shape_def)

lemma intersects_any_Some:
  "shs \<noteq> [] \<Longrightarrow> \<exists>b. intersects_any shs = Some b"
  by (simp add: intersects_any_def Let_def)

lemma down_key: "key \<in> set ARROW_KEYS \<Longrightarrow>
    key \<notin> set [KEY_LEFT, KEY_RIGHT, KEY_UP] \<longleftrightarrow> key = KEY_DOWN"
  by (auto simp add: ARROW_KEYS_def KEY_LEFT_def KEY_RIGHT_def KEY_UP_def KEY_DOWN_def)

lemma frame_cases:
  assumes "key \<in> set ARROW_KEYS" "shapes ctx \<noteq> []"
  shows "frame key choice1 choice2 ctx =
     (if move_valid ctx key then Some (moved_ctx ctx key)
      else if key = KEY_DOWN then settle choice1 choice2 ctx
      else Some ctx)"
proof -
  obtain b where b: "intersects_any (butlast (shapes ctx) @ [move_shape (last (shapes ctx)) key]) = Some b"
    using intersects_any_Some [of "butlast (shapes ctx) @ [move_shape (last (shapes ctx)) key]"]
    by auto
  have restore: "ctx\<lparr>shapes := butlast (shapes ctx) @ [last (shapes ctx)]\<rparr> = ctx"
    using assms(2) by simp
  show ?thesis
    using assms b down_key [OF assms(1)]
    by (simp add: frame_def Let_def move_valid_def moved_ctx_def move_shape_restore restore
        del: set_simps)
qed


lemma settle_reset:
  assumes "clear_full_rows (shapes ctx) = (n, shs)"
    and "intersects_any (shs @ [next_shape ctx]) = Some True"
  shows "settle choice1 choice2 ctx =
     Some (reset_game choice2
        ((spawn_shape choice1 (update_level (update_points (ctx\<lparr>shapes := shs\<rparr>) n) n))
           \<lparr>highscore := max (points (update_points (ctx\<lparr>shapes := shs\<rparr>) n)) (highscore ctx)\<rparr>))"
  using assms
  by (simp add: settle_def Let_def spawn_shape_def update_level_def update_points_def)

lemma settle_no_reset:
  assumes "clear_full_rows (shapes ctx) = (n, shs)"
    and "intersects_any (shs @ [next_shape ctx]) = Some False"
  shows "settle choice1 choice2 ctx =
     Some ((spawn_shape choice1 (update_level (update_points (ctx\<lparr>shapes := shs\<rparr>) n) n))
           \<lparr>highscore := max (points (update_points (ctx\<lparr>shapes := shs\<rparr>) n)) (highscore ctx)\<rparr>)"
  using assms
  by (simp add: settle_def Let_def spawn_shape_def update_level_def update_points_def)



lemma not_in_bounds:
  assumes "x \<in> set range4" "y \<in> set range4" "block s ! nat (index_bm x y)"
    and "vec_x (position s) + x < 0 \<or> vec_x (position s) + x \<ge> WIDTH
         \<or> vec_y (position s) + y < 0"
  shows "\<not> is_in_bounds s"
  using assms unfolding is_in_bounds_def list_all_iff by (auto split: if_splits)


text \<open>
  Claim C8. A left or right key that would put an occupied cell of the active shape at
  board \<open>x < 0\<close> or \<open>x \<ge> WIDTH\<close> (\<open>dx\<close> is the step of the key) is rejected: \<open>frame\<close> returns
  the context it was given, so the position and the mask of the active shape are the ones
  before the call.
\<close>

theorem frame_rejects_lateral_out_of_bounds:
  assumes "shapes ctx \<noteq> []"
    and "(key = KEY_LEFT \<and> dx = -1) \<or> (key = KEY_RIGHT \<and> dx = 1)"
    and "\<exists>x\<in>set range4. \<exists>y\<in>set range4.
           block (last (shapes ctx)) ! nat (index_bm x y)
           \<and> (vec_x (position (last (shapes ctx))) + dx + x < 0
                \<or> vec_x (position (last (shapes ctx))) + dx + x \<ge> WIDTH)"
  shows "frame key choice1 choice2 ctx = Some ctx
    \<and> \<not> is_in_bounds (move_shape (last (shapes ctx)) key)"
proof -
  from assms(2) have key: "key \<in> set ARROW_KEYS" "key \<noteq> KEY_DOWN"
    by (auto simp add: ARROW_KEYS_def KEY_LEFT_def KEY_RIGHT_def KEY_DOWN_def)
  from assms(2) have mv: "block (move_shape (last (shapes ctx)) key) = block (last (shapes ctx))"
    "vec_x (position (move_shape (last (shapes ctx)) key)) =
       vec_x (position (last (shapes ctx))) + dx"
    by (auto simp add: move_shape_def KEY_LEFT_def KEY_RIGHT_def)
  from assms(3) obtain x y where xy: "x \<in> set range4" "y \<in> set range4"
    "block (last (shapes ctx)) ! nat (index_bm x y)"
    "vec_x (position (last (shapes ctx))) + dx + x < 0
       \<or> vec_x (position (last (shapes ctx))) + dx + x \<ge> WIDTH"
    by blast
  have oob: "\<not> is_in_bounds (move_shape (last (shapes ctx)) key)"
    using xy by (intro not_in_bounds [of x y]) (auto simp add: mv)
  then have "\<not> move_valid ctx key" by (simp add: move_valid_def)
  with frame_cases [OF key(1) assms(1)] key(2) oob show ?thesis by simp
qed

text \<open>A square shape whose cells stand in column 0: a step to the left leaves the board.\<close>

definition wall_ctx :: GameContext where
  "wall_ctx = demo_ctx\<lparr>shapes :=
      [\<lparr>position = \<lparr>vec_x = -1, vec_y = 5\<rparr>, block = BLOCK_MASKS Shape_O, color = 4\<rparr>]\<rparr>"

theorem frame_rejects_lateral_out_of_bounds_witness:
  "shapes wall_ctx \<noteq> []
   \<and> block (last (shapes wall_ctx)) ! nat (index_bm 1 1)
   \<and> vec_x (position (last (shapes wall_ctx))) + (- 1) + 1 < 0
   \<and> frame KEY_LEFT Shape_I Shape_T wall_ctx = Some wall_ctx"
proof -
  have ne: "shapes wall_ctx \<noteq> []" by (simp add: wall_ctx_def)
  have cell: "block (last (shapes wall_ctx)) ! nat (index_bm 1 1)"
    by (simp add: wall_ctx_def index_bm_def)
  have out: "vec_x (position (last (shapes wall_ctx))) + (- 1) + 1 < 0"
    by (simp add: wall_ctx_def)
  have mem: "(1::int) \<in> set range4" by (simp add: range4_def)
  from cell out mem have ex: "\<exists>x\<in>set range4. \<exists>y\<in>set range4.
           block (last (shapes wall_ctx)) ! nat (index_bm x y)
           \<and> (vec_x (position (last (shapes wall_ctx))) + (- 1) + x < 0
                \<or> vec_x (position (last (shapes wall_ctx))) + (- 1) + x \<ge> WIDTH)"
    by blast
  have k: "(KEY_LEFT = KEY_LEFT \<and> (- 1 :: int) = -1) \<or> (KEY_LEFT = KEY_RIGHT \<and> (- 1 :: int) = 1)"
    by simp
  from frame_rejects_lateral_out_of_bounds [OF ne k ex] ne cell out show ?thesis by simp
qed

text \<open>
  Claim C6. When the downward step is rejected (so that \<open>frame\<close> settles) and the shape
  spawned after clearing the rows collides with a shape of the list, \<open>frame\<close> resets the
  session: points, level and cleared rows are 0, the list holds exactly the shape drawn
  at that spawn, and the game is marked not started.
\<close>

theorem frame_game_over_reset:
  assumes "shapes ctx \<noteq> []"
    and "\<not> move_valid ctx KEY_DOWN"
    and "clear_full_rows (shapes ctx) = (n, shs)"
    and "intersects_any (shs @ [next_shape ctx]) = Some True"
  shows "\<exists>ctx'. frame KEY_DOWN choice1 choice2 ctx = Some ctx'
    \<and> points ctx' = 0 \<and> level ctx' = 0 \<and> cleared_rows ctx' = 0
    \<and> shapes ctx' = [get_new_shape choice1]
    \<and> \<not> game_started ctx'
    \<and> next_shape ctx' = get_new_shape choice2"
proof -
  have key: "KEY_DOWN \<in> set ARROW_KEYS" by (simp add: ARROW_KEYS_def)
  from frame_cases [OF key assms(1)] assms(2)
  have "frame KEY_DOWN choice1 choice2 ctx = settle choice1 choice2 ctx" by simp
  with settle_reset [OF assms(3,4)] show ?thesis
    by (simp add: reset_game_def spawn_shape_def)
qed


text \<open>
  Claim C1, amended. A key that is no arrow key changes nothing. For an arrow key: a valid
  move is applied and nothing else happens; a rejected downward step restores the
  snapshot and then runs the settling logic; a rejected left, right or up move only
  restores the snapshot. So settling runs exactly when the move was a rejected downward
  step.
\<close>

theorem frame_settles_on_rejected_down:
  "(key \<notin> set ARROW_KEYS \<longrightarrow> frame key choice1 choice2 ctx = Some ctx)
   \<and> (key \<in> set ARROW_KEYS \<and> shapes ctx \<noteq> [] \<longrightarrow>
        frame key choice1 choice2 ctx =
          (if move_valid ctx key then Some (moved_ctx ctx key)
           else if key = KEY_DOWN then settle choice1 choice2 ctx
           else Some ctx))"
  using frame_cases [of key ctx choice1 choice2] by (simp add: frame_def)


section \<open>Concrete sessions\<close>

text \<open>
  \<open>floor_ctx\<close>: the shape lies on the floor and the next shape is a fresh one at the spawn
  position. \<open>high_ctx\<close>: the shape hangs free above the floor. \<open>neg_ctx\<close>: negative points
  and highscore, with \<open>highscore \<ge> points\<close>.
\<close>

definition floor_ctx :: GameContext where
  "floor_ctx = demo_ctx\<lparr>next_shape := get_new_shape Shape_T\<rparr>"

definition high_shape :: TetrisBlock where
  "high_shape = \<lparr>position = \<lparr>vec_x = 4, vec_y = 5\<rparr>, block = BLOCK_MASKS Shape_O, color = 4\<rparr>"

definition high_ctx :: GameContext where
  "high_ctx = demo_ctx\<lparr>shapes := [high_shape]\<rparr>"


lemma demo_clear: "clear_full_rows [demo_shape] = (0, [demo_shape])"
proof -
  have col: "(0::int) \<in> set (py_range 0 WIDTH)"
    by (simp add: py_range_def WIDTH_def)
  have "\<not> row_full [demo_shape] row" for row
  proof
    assume "row_full [demo_shape] row"
    with col have "occupied_at demo_shape 0 row"
      unfolding row_full_def list_all_iff by fastforce
    then show False
      by (simp add: occupied_at_def demo_shape_def)
  qed
  then have "\<forall>r. 0 \<le> r \<and> r < HEIGHT \<longrightarrow> \<not> row_full [demo_shape] r" by simp
  then show ?thesis
    unfolding clear_full_rows_def by (rule loop_no_full_row)
qed

lemma demo_down_out: "\<not> is_in_bounds (move_shape demo_shape KEY_DOWN)"
proof -
  have m: "(1::int) \<in> set range4" by (simp add: range4_def)
  show ?thesis
    by (rule not_in_bounds [OF m m])
      (simp_all add: move_shape_def demo_shape_def index_bm_def KEY_DOWN_def KEY_LEFT_def
        KEY_RIGHT_def KEY_UP_def)
qed

lemma demo_self_collides: "intersects_any [demo_shape, demo_shape] = Some True"
proof -
  have "check_collision
      (get_intersection_area (get_shape_bounds (position demo_shape))
         (get_shape_bounds (position demo_shape))) demo_shape demo_shape"
    unfolding check_collision_def list_ex_iff
    by (rule bexI [of _ 5], rule bexI [of _ 0])
      (simp_all add: demo_shape_def get_intersection_area_def get_shape_bounds_def
        py_range_def index_bm_def)
  then show ?thesis
    by (simp add: intersects_any_def Let_def get_shape_bounds_def)
qed

lemma demo_new_no_collision:
  "intersects_any [demo_shape, get_new_shape Shape_T] = Some False"
  by (rule intersects_any_no_overlap)
    (simp_all add: boxes_overlap_def demo_shape_def get_new_shape_def WIDTH_def HEIGHT_def)

section \<open>The frame on concrete sessions\<close>

lemma demo_down_invalid: "\<not> move_valid demo_ctx KEY_DOWN"
  using demo_down_out by (simp add: move_valid_def demo_ctx_def)

theorem frame_game_over_reset_witness:
  "shapes demo_ctx \<noteq> []
   \<and> \<not> is_in_bounds (move_shape (last (shapes demo_ctx)) KEY_DOWN)
   \<and> clear_full_rows (shapes demo_ctx) = (0, [demo_shape])
   \<and> intersects_any ([demo_shape] @ [next_shape demo_ctx]) = Some True
   \<and> frame KEY_DOWN Shape_I Shape_T demo_ctx =
       Some \<lparr>points = 0, paused = False, game_started = False,
             shapes = [get_new_shape Shape_I], next_shape = get_new_shape Shape_T,
             highscore = 200, level = 0, cleared_rows = 0\<rparr>"
proof -
  have ne: "shapes demo_ctx \<noteq> []" by (simp add: demo_ctx_def)
  have oob: "\<not> is_in_bounds (move_shape (last (shapes demo_ctx)) KEY_DOWN)"
    using demo_down_out by (simp add: demo_ctx_def)
  have cl: "clear_full_rows (shapes demo_ctx) = (0, [demo_shape])"
    using demo_clear by (simp add: demo_ctx_def)
  have col: "intersects_any ([demo_shape] @ [next_shape demo_ctx]) = Some True"
    using demo_self_collides by (simp add: demo_ctx_def)
  from frame_game_over_reset [OF ne demo_down_invalid cl col, of Shape_I Shape_T]
  obtain ctx' where r: "frame KEY_DOWN Shape_I Shape_T demo_ctx = Some ctx'"
    "points ctx' = 0" "level ctx' = 0" "cleared_rows ctx' = 0"
    "shapes ctx' = [get_new_shape Shape_I]" "\<not> game_started ctx'"
    "next_shape ctx' = get_new_shape Shape_T"
    by blast
  have key: "KEY_DOWN \<in> set ARROW_KEYS" by (simp add: ARROW_KEYS_def)
  have "frame KEY_DOWN Shape_I Shape_T demo_ctx = settle Shape_I Shape_T demo_ctx"
    using frame_cases [OF key ne] demo_down_invalid by simp
  with settle_reset [OF cl col, of Shape_I Shape_T] r(1)
  have "paused ctx' = False" "highscore ctx' = 200"
    by (auto simp add: reset_game_def spawn_shape_def update_level_def update_points_def
        demo_ctx_def)
  with r have "ctx' = \<lparr>points = 0, paused = False, game_started = False,
             shapes = [get_new_shape Shape_I], next_shape = get_new_shape Shape_T,
             highscore = 200, level = 0, cleared_rows = 0\<rparr>"
    by (cases ctx') simp
  with r(1) ne oob cl col show ?thesis by simp
qed



lemma key_down_arrow: "KEY_DOWN \<in> set ARROW_KEYS"
  by (simp add: ARROW_KEYS_def)


theorem frame_settles_on_rejected_down_witness:
  "KEY_DOWN \<in> set ARROW_KEYS \<and> shapes floor_ctx \<noteq> []
   \<and> \<not> move_valid floor_ctx KEY_DOWN
   \<and> frame KEY_DOWN Shape_I Shape_T floor_ctx = settle Shape_I Shape_T floor_ctx
   \<and> KEY_LEFT \<in> set ARROW_KEYS \<and> move_valid floor_ctx KEY_LEFT
   \<and> frame KEY_LEFT Shape_I Shape_T floor_ctx = Some (moved_ctx floor_ctx KEY_LEFT)
   \<and> (113 :: int) \<notin> set ARROW_KEYS
   \<and> frame 113 Shape_I Shape_T floor_ctx = Some floor_ctx"
proof -
  have ne: "shapes floor_ctx \<noteq> []" by (simp add: floor_ctx_def demo_ctx_def)
  have inv: "\<not> move_valid floor_ctx KEY_DOWN"
    using demo_down_out by (simp add: move_valid_def floor_ctx_def demo_ctx_def)
  have keys: "KEY_LEFT \<in> set ARROW_KEYS" "(113 :: int) \<notin> set ARROW_KEYS"
    "KEY_LEFT \<noteq> KEY_DOWN"
    by (simp_all add: ARROW_KEYS_def KEY_LEFT_def KEY_RIGHT_def KEY_UP_def KEY_DOWN_def)
  have left: "move_valid floor_ctx KEY_LEFT"
    by (simp add: move_valid_def moved_ctx_def floor_ctx_def demo_ctx_def demo_shape_def
        move_shape_def is_in_bounds_def range4_def index_bm_def WIDTH_def intersects_any_def
        Let_def)
  from frame_settles_on_rejected_down [of KEY_DOWN Shape_I Shape_T floor_ctx]
    frame_settles_on_rejected_down [of KEY_LEFT Shape_I Shape_T floor_ctx]
    frame_settles_on_rejected_down [of 113 Shape_I Shape_T floor_ctx]
    ne inv keys left key_down_arrow
  show ?thesis by simp
qed

theorem frame_settling_counterexample:
  "\<not> is_in_bounds (move_shape (last (shapes floor_ctx)) KEY_DOWN)
   \<and> frame KEY_DOWN Shape_I Shape_T floor_ctx =
       Some (floor_ctx\<lparr>shapes := [demo_shape, get_new_shape Shape_T],
                       next_shape := get_new_shape Shape_I\<rparr>)
   \<and> floor_ctx\<lparr>shapes := [demo_shape, get_new_shape Shape_T],
                next_shape := get_new_shape Shape_I\<rparr> \<noteq> floor_ctx
   \<and> is_in_bounds (move_shape (last (shapes high_ctx)) KEY_DOWN)
   \<and> intersects_any (butlast (shapes high_ctx) @ [move_shape (last (shapes high_ctx)) KEY_DOWN])
       = Some False
   \<and> frame KEY_DOWN Shape_I Shape_T high_ctx =
       Some (high_ctx\<lparr>shapes := [high_shape\<lparr>position := \<lparr>vec_x = 4, vec_y = 4\<rparr>\<rparr>]\<rparr>)"
proof -
  have ne: "shapes floor_ctx \<noteq> []" by (simp add: floor_ctx_def demo_ctx_def)
  have oob: "\<not> is_in_bounds (move_shape (last (shapes floor_ctx)) KEY_DOWN)"
    using demo_down_out by (simp add: floor_ctx_def demo_ctx_def)
  then have inv: "\<not> move_valid floor_ctx KEY_DOWN"
    by (simp add: move_valid_def)
  have cl: "clear_full_rows (shapes floor_ctx) = (0, [demo_shape])"
    using demo_clear by (simp add: floor_ctx_def demo_ctx_def)
  have col: "intersects_any ([demo_shape] @ [next_shape floor_ctx]) = Some False"
    using demo_new_no_collision by (simp add: floor_ctx_def demo_ctx_def)
  have "frame KEY_DOWN Shape_I Shape_T floor_ctx = settle Shape_I Shape_T floor_ctx"
    using frame_cases [OF key_down_arrow ne] inv by simp
  also have "\<dots> = Some (floor_ctx\<lparr>shapes := [demo_shape, get_new_shape Shape_T],
                       next_shape := get_new_shape Shape_I\<rparr>)"
    unfolding settle_no_reset [OF cl col]
    by (simp add: spawn_shape_def update_level_def update_points_def
        floor_ctx_def demo_ctx_def)
  finally have f: "frame KEY_DOWN Shape_I Shape_T floor_ctx =
      Some (floor_ctx\<lparr>shapes := [demo_shape, get_new_shape Shape_T],
                       next_shape := get_new_shape Shape_I\<rparr>)" .
  have d: "floor_ctx\<lparr>shapes := [demo_shape, get_new_shape Shape_T],
                next_shape := get_new_shape Shape_I\<rparr> \<noteq> floor_ctx"
  proof
    assume "floor_ctx\<lparr>shapes := [demo_shape, get_new_shape Shape_T],
                next_shape := get_new_shape Shape_I\<rparr> = floor_ctx"
    then have "shapes (floor_ctx\<lparr>shapes := [demo_shape, get_new_shape Shape_T],
                next_shape := get_new_shape Shape_I\<rparr>) = shapes floor_ctx"
      by simp
    then show False by (simp add: floor_ctx_def demo_ctx_def)
  qed
  have hne: "shapes high_ctx \<noteq> []" by (simp add: high_ctx_def)
  have hb: "is_in_bounds (move_shape (last (shapes high_ctx)) KEY_DOWN)"
    by (simp add: high_ctx_def high_shape_def move_shape_def is_in_bounds_def range4_def
        index_bm_def WIDTH_def KEY_DOWN_def KEY_LEFT_def KEY_RIGHT_def KEY_UP_def)
  have hi: "intersects_any (butlast (shapes high_ctx) @ [move_shape (last (shapes high_ctx)) KEY_DOWN])
       = Some False"
    by (simp add: high_ctx_def intersects_any_def Let_def)
  from hb hi have hv: "move_valid high_ctx KEY_DOWN"
    by (simp add: move_valid_def moved_ctx_def)
  have "frame KEY_DOWN Shape_I Shape_T high_ctx = Some (moved_ctx high_ctx KEY_DOWN)"
    using frame_cases [OF key_down_arrow hne] hv by simp
  also have "moved_ctx high_ctx KEY_DOWN =
      high_ctx\<lparr>shapes := [high_shape\<lparr>position := \<lparr>vec_x = 4, vec_y = 4\<rparr>\<rparr>]\<rparr>"
    by (simp add: moved_ctx_def high_ctx_def high_shape_def move_shape_def
        KEY_DOWN_def KEY_LEFT_def KEY_RIGHT_def KEY_UP_def)
  finally show ?thesis
    using oob f d hb hi by simp
qed

section \<open>Stats persistence: round trip and defaults\<close>


lemma load_stats_other_error:
  "json_load text = Inl OtherError \<Longrightarrow> load_stats json_load (Some text) = Inl OtherError"
  by (simp add: load_stats_def open_read_def)










end
